theory Spec2Isabelle
  imports Main "HOL-Library.Multiset"
begin

section \<open>Exceptions and values\<close>

text \<open>
  The exception classes that the code of \<^verbatim>\<open>coroutines.py\<close> can raise: a failed
  \<^verbatim>\<open>assert\<close>, a subscript of an empty list, a missing dictionary key, a subscript
  of \<^verbatim>\<open>None\<close>, and whatever the external translator raised inside a worker
  (kept by the future and raised again by \<^verbatim>\<open>result()\<close>).
\<close>

datatype exn = AssertionError | IndexError | KeyError | TypeError | External string

section \<open>Source: \<^verbatim>\<open>source\<close>\<close>

text \<open>
  \<^verbatim>\<open>s.partition(sep)\<close> for a one-character separator: the part before the first
  occurrence, the separator, the part after it; when the separator does not occur,
  the whole string and two empty strings.
\<close>

definition partition_str :: "char \<Rightarrow> string \<Rightarrow> string \<times> string \<times> string" where
  "partition_str c s =
     (if c \<in> set s
      then (takeWhile (\<lambda>x. x \<noteq> c) s, [c], tl (dropWhile (\<lambda>x. x \<noteq> c) s))
      else (s, [], []))"

text \<open>
  The body of the \<^verbatim>\<open>for\<close> loop of \<^verbatim>\<open>source\<close> on one line: the fragments passed
  to \<^verbatim>\<open>target.send\<close>, in order, and the exception that ended the loop, if any.
  \<^verbatim>\<open>
      while len(line) > 500:
          init, sep, line = line.partition(' ')
          assert(len(init) <= 500)
          target.send(''.join([init, sep]))
      target.send(line)
  \<close>
\<close>

function source_line :: "string \<Rightarrow> string list \<times> exn option" where
  "source_line line =
     (if 500 < length line
      then (case partition_str CHR '' '' line of
              (init, sep, rest) \<Rightarrow>
                if length init \<le> 500
                then (case source_line rest of (fs, e) \<Rightarrow> ((init @ sep) # fs, e))
                else ([], Some AssertionError))
      else ([line], None))"
  by pat_completeness auto
termination
proof (relation "measure length")
  show "wf (measure length)" by simp
next
  fix line :: string and init y sep rest
  assume big: "500 < length line"
    and p: "(init, y) = partition_str CHR '' '' line" "(sep, rest) = y"
  let ?d = "dropWhile (\<lambda>x. x \<noteq> CHR '' '') line"
  have "length rest < length line"
  proof (cases "CHR '' '' \<in> set line")
    case True
    then have r: "rest = tl ?d"
      using p by (simp add: partition_str_def)
    have "?d \<noteq> []" using True by simp
    moreover have "length ?d \<le> length line"
      by (rule length_dropWhile_le)
    ultimately show ?thesis
      unfolding r by (cases ?d) auto
  next
    case False
    then have "rest = []" using p by (simp add: partition_str_def)
    then show ?thesis using big by auto
  qed
  then show "(rest, line) \<in> measure length" by simp
qed

text \<open>
  \<^verbatim>\<open>source\<close> on the lines that iterating \<^verbatim>\<open>sys.stdin\<close> yields: all fragments
  sent, and the exception that escaped, if any. With no exception the target is
  closed after the last line.
\<close>

fun source :: "string list \<Rightarrow> string list \<times> exn option" where
  "source [] = ([], None)"
| "source (line # lines) =
     (case source_line line of
        (fs, Some e) \<Rightarrow> (fs, Some e)
      | (fs, None) \<Rightarrow> (case source lines of (gs, e) \<Rightarrow> (fs @ gs, e)))"

declare source_line.simps [simp del]

section \<open>Batcher: \<^verbatim>\<open>accumulator\<close> and \<^verbatim>\<open>spool\<close>\<close>

text \<open>
  The two kinds of value \<^verbatim>\<open>accumulator\<close> is called with: \<^verbatim>\<open>isinstance(init, int)\<close>
  is the constructor test.
\<close>

datatype pyval = PyInt (int_of: int) | PyStr (str_of: string)

text \<open>
  \<^verbatim>\<open>
  return (init + len(update) if isinstance(init, int) else init + update)
  \<close>
\<close>

definition accumulator :: "pyval \<Rightarrow> string \<Rightarrow> pyval" where
  "accumulator init update =
     (case init of
        PyInt n \<Rightarrow> PyInt (n + int (length update))
      | PyStr s \<Rightarrow> PyStr (s @ update))"

text \<open>\<^verbatim>\<open>functools.reduce(function, iterable, initializer)\<close>.\<close>

definition reduce :: "('a \<Rightarrow> 'b \<Rightarrow> 'a) \<Rightarrow> 'b list \<Rightarrow> 'a \<Rightarrow> 'a" where
  "reduce f xs init = foldl f init xs"

text \<open>Iterating over a \<^verbatim>\<open>str\<close> yields its characters, each a string of length one.\<close>

definition iter_str :: "string \<Rightarrow> string list" where
  "iter_str s = map (\<lambda>c. [c]) s"

text \<open>The local variables \<^verbatim>\<open>words\<close> and \<^verbatim>\<open>text\<close> of \<^verbatim>\<open>spool\<close>.\<close>

record spool_state =
  sp_words :: int
  sp_text :: string

text \<open>\<^verbatim>\<open>words = int()\<close>, \<^verbatim>\<open>text = str()\<close>.\<close>

definition spool_init :: spool_state where
  "spool_init = \<lparr>sp_words = 0, sp_text = []\<rparr>"

text \<open>
  \<^verbatim>\<open>
  text   = reduce(accumulator, stream, text)
  words  = reduce(accumulator, stream, words)
  \<close>
\<close>

definition spool_merge :: "spool_state \<Rightarrow> string \<Rightarrow> spool_state" where
  "spool_merge st stream =
     \<lparr>sp_words = int_of (reduce accumulator (iter_str stream) (PyInt (sp_words st))),
      sp_text = str_of (reduce accumulator (iter_str stream) (PyStr (sp_text st)))\<rparr>"

text \<open>
  The control flow of \<^verbatim>\<open>spool\<close> from the test of the inner loop to the next
  \<^verbatim>\<open>yield\<close>: the state the coroutine is suspended in and the texts passed to
  \<^verbatim>\<open>iterable.send\<close> on the way. With \<^verbatim>\<open>maxlen <= 0\<close> the inner loop is never
  entered and the outer loop sends empty texts for ever: no value.
  \<^verbatim>\<open>
  while True:
      while words < maxlen:
          stream = yield
          ...
      iterable.send(text)
      words = int()
      text  = str()
  \<close>
\<close>

partial_function (option) spool_run ::
  "int \<Rightarrow> spool_state \<Rightarrow> string list \<Rightarrow> (spool_state \<times> string list) option" where
  "spool_run maxlen st sent =
     (if sp_words st < maxlen then Some (st, sent)
      else spool_run maxlen spool_init (sent @ [sp_text st]))"

text \<open>Priming by the \<^verbatim>\<open>coroutine\<close> decorator: run to the first \<^verbatim>\<open>yield\<close>.\<close>

definition spool_start :: "int \<Rightarrow> (spool_state \<times> string list) option" where
  "spool_start maxlen = spool_run maxlen spool_init []"

text \<open>\<^verbatim>\<open>send(stream)\<close> to the suspended coroutine: merge, then run to the next \<^verbatim>\<open>yield\<close>.\<close>

definition spool_send :: "int \<Rightarrow> spool_state \<Rightarrow> string \<Rightarrow> (spool_state \<times> string list) option" where
  "spool_send maxlen st stream = spool_run maxlen (spool_merge st stream) []"

text \<open>
  \<^verbatim>\<open>close()\<close>: the handler of \<^verbatim>\<open>GeneratorExit\<close> sends the text once, then closes
  \<^verbatim>\<open>iterable\<close>. The value is what is sent.
\<close>

definition spool_close :: "spool_state \<Rightarrow> string list" where
  "spool_close st = [sp_text st]"

text \<open>Feeding a list of fragments from a suspended state: the final state and all texts sent.\<close>

fun spool_feed :: "int \<Rightarrow> string list \<Rightarrow> spool_state \<Rightarrow> (spool_state \<times> string list) option" where
  "spool_feed maxlen [] st = Some (st, [])"
| "spool_feed maxlen (f # fs) st =
     (case spool_send maxlen st f of
        None \<Rightarrow> None
      | Some (st', sent) \<Rightarrow>
          (case spool_feed maxlen fs st' of
             None \<Rightarrow> None
           | Some (st'', sent') \<Rightarrow> Some (st'', sent @ sent')))"

section \<open>Sink: \<^verbatim>\<open>write_stream\<close>\<close>

text \<open>
  A translated script is a dictionary whose key \<^verbatim>\<open>'sentences'\<close> holds a list of
  dictionaries from field names to text.
\<close>

type_synonym segment = "string \<rightharpoonup> string"
type_synonym script = "string \<rightharpoonup> segment list"

text \<open>
  \<^verbatim>\<open>
  for line in sentences:
      printer(line[output])
  \<close>
  on the text already written to \<^verbatim>\<open>sys.stdout\<close>: a missing key raises \<^verbatim>\<open>KeyError\<close>
  after the earlier segments have been printed.
\<close>

fun print_sentences :: "string \<Rightarrow> segment list \<Rightarrow> string \<Rightarrow> string \<times> exn option" where
  "print_sentences output [] out = (out, None)"
| "print_sentences output (line # rest) out =
     (case line output of
        None \<Rightarrow> (out, Some KeyError)
      | Some t \<Rightarrow> print_sentences output rest (out @ t))"

text \<open>
  \<^verbatim>\<open>
  sentences = script.get('sentences', None)
  assert(output in sentences[0])
  for line in sentences:
      printer(line[output])
  printer('\n')
  \<close>
  The value is the new content of \<^verbatim>\<open>sys.stdout\<close> and the exception raised, if any.
\<close>

definition write_stream :: "script \<Rightarrow> string \<Rightarrow> string \<Rightarrow> string \<times> exn option" where
  "write_stream script output out =
     (case script ''sentences'' of
        None \<Rightarrow> (out, Some TypeError)
      | Some [] \<Rightarrow> (out, Some IndexError)
      | Some (s0 # rest) \<Rightarrow>
          if s0 output = None then (out, Some AssertionError)
          else (case print_sentences output (s0 # rest) out of
                  (out', Some e) \<Rightarrow> (out', Some e)
                | (out', None) \<Rightarrow> (out' @ [CHR 0x0A], None)))"

section \<open>Scheduler: \<^verbatim>\<open>set_task\<close>\<close>

text \<open>
  A future of the worker pool: the number of the submission that created it (counted
  from 0) and the task text the translator was submitted with. The translator is
  external: text in, a script out or an exception. Whether a future is done when
  \<^verbatim>\<open>done()\<close> is called is decided by the worker threads, not by this code: it is a
  parameter \<open>is_done\<close>, asked with the number of calls of \<^verbatim>\<open>done()\<close> made
  so far and the number of the future.
\<close>

type_synonym future = "nat \<times> string"
type_synonym translator = "string \<Rightarrow> exn + script"
type_synonym completion = "nat \<Rightarrow> nat \<Rightarrow> bool"

text \<open>
  The state of the coroutine: the list \<^verbatim>\<open>queue\<close>, the number of calls of
  \<^verbatim>\<open>done()\<close> so far, the tasks passed to \<^verbatim>\<open>workers.submit\<close>, the numbers of the
  futures whose result was passed to \<^verbatim>\<open>stream\<close>, and the text on \<^verbatim>\<open>sys.stdout\<close>.
\<close>

record sched_state =
  queue :: "future list"
  polls :: nat
  submitted :: "string list"
  delivered :: "nat list"
  stdout :: string

definition set_task_init :: sched_state where
  "set_task_init = \<lparr>queue = [], polls = 0, submitted = [], delivered = [], stdout = []\<rparr>"

text \<open>\<^verbatim>\<open>output = ('translit' if translit else 'trans')\<close>\<close>

definition output_field :: "bool \<Rightarrow> string" where
  "output_field translit = (if translit then ''translit'' else ''trans'')"

text \<open>
  \<^verbatim>\<open>stream(result(f))\<close>: \<^verbatim>\<open>result\<close> waits for the future and returns the script or
  raises the translator's exception; \<^verbatim>\<open>stream\<close> is \<^verbatim>\<open>write_stream\<close> with the
  output field.
\<close>

definition stream_result ::
  "translator \<Rightarrow> string \<Rightarrow> future \<Rightarrow> sched_state \<Rightarrow> sched_state \<times> exn option" where
  "stream_result translator output f st =
     (case translator (snd f) of
        Inl e \<Rightarrow> (st, Some e)
      | Inr script \<Rightarrow>
          (case write_stream script output (stdout st) of
             (out', e) \<Rightarrow> (st\<lparr>delivered := delivered st @ [fst f], stdout := out'\<rparr>, e)))"

text \<open>
  \<^verbatim>\<open>
  while queue and done(first(queue)):
      stream(result(queue.pop()))
  \<close>
  \<^verbatim>\<open>first\<close> is \<^verbatim>\<open>itemgetter(0)\<close> and \<^verbatim>\<open>list.pop()\<close> removes and returns the last
  element.
\<close>

function drain :: "translator \<Rightarrow> completion \<Rightarrow> string \<Rightarrow> sched_state \<Rightarrow> sched_state \<times> exn option" where
  "drain translator is_done output st =
     (if queue st = [] then (st, None)
      else if is_done (polls st) (fst (hd (queue st)))
      then (case stream_result translator output (last (queue st))
                   (st\<lparr>queue := butlast (queue st), polls := Suc (polls st)\<rparr>) of
              (st', Some e) \<Rightarrow> (st', Some e)
            | (st', None) \<Rightarrow> drain translator is_done output st')
      else (st\<lparr>polls := Suc (polls st)\<rparr>, None))"
  by pat_completeness auto
termination
proof (relation "measure (\<lambda>(translator, is_done, output, st). length (queue st))")
  show "wf (measure (\<lambda>(translator, is_done, output, st). length (queue st)))" by simp
next
  fix translator :: translator and is_done :: completion and fld :: string
    and st st' :: sched_state and e :: "exn option"
  assume ne: "queue st \<noteq> []"
    and r: "(st', e) = stream_result translator fld (last (queue st))
                  (st\<lparr>queue := butlast (queue st), polls := Suc (polls st)\<rparr>)"
  have "queue st' = butlast (queue st)"
    using r by (auto simp: stream_result_def split: sum.splits prod.splits)
  then show "((translator, is_done, fld, st'), (translator, is_done, fld, st))
      \<in> measure (\<lambda>(translator, is_done, fld, st). length (queue st))"
    using ne by simp
qed

declare drain.simps [simp del]

text \<open>
  \<^verbatim>\<open>
  task = yield
  queue.append(workers.submit(translator, task))
  while queue and done(first(queue)): ...
  \<close>
\<close>

definition set_task_send ::
  "translator \<Rightarrow> completion \<Rightarrow> string \<Rightarrow> string \<Rightarrow> sched_state \<Rightarrow> sched_state \<times> exn option" where
  "set_task_send translator is_done output task st =
     drain translator is_done output
       (st\<lparr>queue := queue st @ [(length (submitted st), task)],
           submitted := submitted st @ [task]\<rparr>)"

text \<open>\<^verbatim>\<open>list(map(stream, (map(result, queue))))\<close>: the queue from the front.\<close>

fun stream_all :: "translator \<Rightarrow> string \<Rightarrow> future list \<Rightarrow> sched_state \<Rightarrow> sched_state \<times> exn option" where
  "stream_all translator output [] st = (st, None)"
| "stream_all translator output (f # fs) st =
     (case stream_result translator output f st of
        (st', Some e) \<Rightarrow> (st', Some e)
      | (st', None) \<Rightarrow> stream_all translator output fs st')"

text \<open>
  \<^verbatim>\<open>close()\<close>: the handler of \<^verbatim>\<open>GeneratorExit\<close>. \<^verbatim>\<open>workers.shutdown(wait=True)\<close>
  returns when every submitted call has finished; the list \<^verbatim>\<open>queue\<close> is read, not
  changed.
\<close>

definition set_task_close :: "translator \<Rightarrow> string \<Rightarrow> sched_state \<Rightarrow> sched_state \<times> exn option" where
  "set_task_close translator output st = stream_all translator output (queue st) st"

text \<open>Sending a list of tasks, one after the other, until one send raises.\<close>

fun set_task_feed ::
  "translator \<Rightarrow> completion \<Rightarrow> string \<Rightarrow> string list \<Rightarrow> sched_state \<Rightarrow> sched_state \<times> exn option" where
  "set_task_feed translator is_done output [] st = (st, None)"
| "set_task_feed translator is_done output (task # tasks) st =
     (case set_task_send translator is_done output task st of
        (st', Some e) \<Rightarrow> (st', Some e)
      | (st', None) \<Rightarrow> set_task_feed translator is_done output tasks st')"

text \<open>A whole life of the coroutine: created, sent the tasks, closed.\<close>

definition set_task_session ::
  "translator \<Rightarrow> completion \<Rightarrow> bool \<Rightarrow> string list \<Rightarrow> sched_state \<times> exn option" where
  "set_task_session translator is_done translit tasks =
     (case set_task_feed translator is_done (output_field translit) tasks set_task_init of
        (st, Some e) \<Rightarrow> (st, Some e)
      | (st, None) \<Rightarrow> set_task_close translator (output_field translit) st)"

section \<open>The pipeline \<^verbatim>\<open>source(spool(set_task(translator, translit), maxlen))\<close>\<close>

text \<open>
  The calls between the coroutines are synchronous: a fragment sent to \<^verbatim>\<open>spool\<close> is
  merged, and a text that \<^verbatim>\<open>spool\<close> flushes is handled by \<^verbatim>\<open>set_task\<close> before
  \<^verbatim>\<open>send\<close> returns. An exception raised downstream passes through every caller.
  The state of the pipeline is the state of \<^verbatim>\<open>spool\<close> and the state of \<^verbatim>\<open>set_task\<close>.
\<close>

definition pipe_send ::
  "translator \<Rightarrow> completion \<Rightarrow> string \<Rightarrow> int \<Rightarrow> string \<Rightarrow> spool_state \<times> sched_state
     \<Rightarrow> ((spool_state \<times> sched_state) \<times> exn option) option" where
  "pipe_send translator is_done output maxlen frag ps =
     (case spool_send maxlen (fst ps) frag of
        None \<Rightarrow> None
      | Some (sp', batches) \<Rightarrow>
          (case set_task_feed translator is_done output batches (snd ps) of
             (sch', e) \<Rightarrow> Some ((sp', sch'), e)))"

fun pipe_feed ::
  "translator \<Rightarrow> completion \<Rightarrow> string \<Rightarrow> int \<Rightarrow> string list \<Rightarrow> spool_state \<times> sched_state
     \<Rightarrow> ((spool_state \<times> sched_state) \<times> exn option) option" where
  "pipe_feed translator is_done output maxlen [] ps = Some (ps, None)"
| "pipe_feed translator is_done output maxlen (frag # frags) ps =
     (case pipe_send translator is_done output maxlen frag ps of
        None \<Rightarrow> None
      | Some (ps', Some e) \<Rightarrow> Some (ps', Some e)
      | Some (ps', None) \<Rightarrow> pipe_feed translator is_done output maxlen frags ps')"

text \<open>
  \<^verbatim>\<open>target.close()\<close> at the end of \<^verbatim>\<open>source\<close>: \<^verbatim>\<open>spool\<close> sends its text and
  closes \<^verbatim>\<open>set_task\<close>.
  \<^verbatim>\<open>
  except GeneratorExit:
      iterable.send(text)
      iterable.close()
  \<close>
\<close>

definition pipe_close ::
  "translator \<Rightarrow> completion \<Rightarrow> string \<Rightarrow> spool_state \<times> sched_state \<Rightarrow> sched_state \<times> exn option" where
  "pipe_close translator is_done output ps =
     (case set_task_feed translator is_done output (spool_close (fst ps)) (snd ps) of
        (sch', Some e) \<Rightarrow> (sch', Some e)
      | (sch', None) \<Rightarrow> set_task_close translator output sch')"

text \<open>
  The whole run on the lines of the input: \<^verbatim>\<open>set_task\<close> is created and primed,
  then \<^verbatim>\<open>spool\<close>, then \<^verbatim>\<open>source\<close> runs. No value when \<^verbatim>\<open>spool\<close> never
  reaches a \<^verbatim>\<open>yield\<close>.
\<close>

definition pipeline ::
  "translator \<Rightarrow> completion \<Rightarrow> bool \<Rightarrow> int \<Rightarrow> string list \<Rightarrow> (sched_state \<times> exn option) option" where
  "pipeline translator is_done translit maxlen lines =
     (case spool_start maxlen of
        None \<Rightarrow> None
      | Some (sp0, batches0) \<Rightarrow>
          (case set_task_feed translator is_done (output_field translit) batches0 set_task_init of
             (sch0, Some e) \<Rightarrow> Some (sch0, Some e)
           | (sch0, None) \<Rightarrow>
               (case source lines of
                  (frags, raised) \<Rightarrow>
                    (case pipe_feed translator is_done (output_field translit) maxlen frags (sp0, sch0) of
                       None \<Rightarrow> None
                     | Some (ps, Some e) \<Rightarrow> Some (snd ps, Some e)
                     | Some (ps, None) \<Rightarrow>
                         (case raised of
                            Some e \<Rightarrow> Some (snd ps, Some e)
                          | None \<Rightarrow> Some (pipe_close translator is_done (output_field translit) ps))))))"

section \<open>Notions of the specification\<close>

text \<open>
  The maximal runs of characters other than \<open>c\<close> in a string, empty runs included
  (\<^verbatim>\<open>s.split(c)\<close>): the tokens between which \<^verbatim>\<open>source\<close> can split a line.
\<close>

fun split_on :: "char \<Rightarrow> string \<Rightarrow> string list" where
  "split_on c [] = [[]]"
| "split_on c (x # xs) =
     (if x = c then [] # split_on c xs
      else (x # hd (split_on c xs)) # tl (split_on c xs))"

text \<open>
  The unit size the specification names: the number of words obtained by splitting the
  text on whitespace (\<^verbatim>\<open>len(s.split())\<close>). The flag tells whether the previous
  character belonged to a word.
\<close>

definition is_space :: "char \<Rightarrow> bool" where
  "is_space c = (c \<in> set [CHR '' '', CHR 0x09, CHR 0x0A, CHR 0x0B, CHR 0x0C, CHR 0x0D])"

fun count_words :: "bool \<Rightarrow> string \<Rightarrow> nat" where
  "count_words inw [] = 0"
| "count_words inw (c # cs) =
     (if is_space c then count_words False cs
      else (if inw then 0 else 1) + count_words True cs)"

definition spec_word_count :: "string \<Rightarrow> nat" where
  "spec_word_count s = count_words False s"

text \<open>
  A script that \<^verbatim>\<open>write_stream\<close> prints in full: the key \<^verbatim>\<open>'sentences'\<close> holds a
  list that is not empty and every segment has the output field. A task translates
  when the translator returns such a script for it.
\<close>

definition printable :: "string \<Rightarrow> script \<Rightarrow> bool" where
  "printable output script =
     (case script ''sentences'' of
        None \<Rightarrow> False
      | Some segs \<Rightarrow> segs \<noteq> [] \<and> list_all (\<lambda>s. s output \<noteq> None) segs)"

definition translates :: "translator \<Rightarrow> string \<Rightarrow> string \<Rightarrow> bool" where
  "translates translator output task =
     (case translator task of Inl e \<Rightarrow> False | Inr script \<Rightarrow> printable output script)"

text \<open>
  A stub translator that returns its input unchanged, as one segment with both fields.
\<close>

definition echo_translator :: translator where
  "echo_translator task = Inr [''sentences'' \<mapsto> [[''trans'' \<mapsto> task, ''translit'' \<mapsto> task]]]"

text \<open>
  The maximal runs of characters that are not whitespace, empty runs included: the
  pieces a line falls into when it is split at every whitespace character.
\<close>

fun split_ws :: "string \<Rightarrow> string list" where
  "split_ws [] = [[]]"
| "split_ws (x # xs) =
     (if is_space x then [] # split_ws xs
      else (x # hd (split_ws xs)) # tl (split_ws xs))"

text \<open>
  The output record of a result: the text of the output field of each segment, in
  order, with nothing between them, and then one newline. The record of a task is the
  record of the script the translator returns for it.
\<close>

definition record_text :: "string \<Rightarrow> script \<Rightarrow> string" where
  "record_text output script =
     (case script ''sentences'' of
        None \<Rightarrow> []
      | Some segs \<Rightarrow>
          concat (map (\<lambda>s. case s output of None \<Rightarrow> [] | Some t \<Rightarrow> t) segs) @ [CHR 0x0A])"

definition translated_record :: "translator \<Rightarrow> string \<Rightarrow> string \<Rightarrow> string" where
  "translated_record translator output task =
     (case translator task of Inl e \<Rightarrow> [] | Inr script \<Rightarrow> record_text output script)"

text \<open>
  The bookkeeping of \<^verbatim>\<open>set_task\<close>: the futures in the queue and the futures
  delivered are, together, every submission once.
\<close>

definition sched_inv :: "sched_state \<Rightarrow> bool" where
  "sched_inv st =
     (mset (map fst (queue st)) + mset (delivered st) = mset [0..<length (submitted st)])"

text \<open>
  What \<^verbatim>\<open>set_task\<close> has written: the records of the submissions delivered, in
  the order of delivery; and every future in the queue carries the text of the
  submission it is numbered with.
\<close>

definition sched_out :: "translator \<Rightarrow> string \<Rightarrow> sched_state \<Rightarrow> bool" where
  "sched_out translator output st =
     (stdout st = concat (map (\<lambda>i. translated_record translator output (submitted st ! i))
                           (delivered st))
      \<and> list_all (\<lambda>f. fst f < length (submitted st) \<and> submitted st ! fst f = snd f) (queue st))"

section \<open>Properties of \<^verbatim>\<open>source\<close>\<close>

lemma partition_str_join:
  "partition_str c s = (init, sep, rest) \<Longrightarrow> init @ sep @ rest = s"
proof (cases "c \<in> set s")
  case True
  assume p: "partition_str c s = (init, sep, rest)"
  have "dropWhile (\<lambda>x. x \<noteq> c) s \<noteq> []" using True by simp
  moreover have "hd (dropWhile (\<lambda>x. x \<noteq> c) s) = c"
    using True hd_dropWhile[of "\<lambda>x. x \<noteq> c" s] by simp
  ultimately have "c # tl (dropWhile (\<lambda>x. x \<noteq> c) s) = dropWhile (\<lambda>x. x \<noteq> c) s"
    by (cases "dropWhile (\<lambda>x. x \<noteq> c) s") auto
  then show ?thesis using p True by (auto simp: partition_str_def)
next
  case False
  assume "partition_str c s = (init, sep, rest)"
  then show ?thesis using False by (auto simp: partition_str_def)
qed

lemma partition_str_sep:
  "partition_str c s = (init, sep, rest) \<Longrightarrow> sep = [] \<or> sep = [c]"
  by (auto simp: partition_str_def split: if_splits)

lemma partition_str_absent:
  "c \<notin> set s \<Longrightarrow> partition_str c s = (s, [], [])"
  by (simp add: partition_str_def)

lemma partition_str_replicate:
  "a \<noteq> c \<Longrightarrow> partition_str c (replicate n a @ c # r) = (replicate n a, [c], r)"
proof -
  assume ac: "a \<noteq> c"
  have t: "takeWhile (\<lambda>x. x \<noteq> c) (replicate n a @ c # r) = replicate n a"
    using ac by (induction n) auto
  have d: "dropWhile (\<lambda>x. x \<noteq> c) (replicate n a @ c # r) = c # r"
    using ac by (induction n) auto
  show ?thesis by (simp add: partition_str_def t d)
qed

lemma source_line_concat:
  "source_line line = (fs, None) \<Longrightarrow> concat fs = line"
proof (induction line arbitrary: fs rule: source_line.induct)
  case (1 line)
  show ?case
  proof (cases "500 < length line")
    case False
    then show ?thesis using "1.prems" by (auto simp: source_line.simps)
  next
    case True
    obtain init sep rest where p: "partition_str CHR '' '' line = (init, sep, rest)"
      by (cases "partition_str CHR '' '' line") auto
    obtain gs e where r: "source_line rest = (gs, e)"
      by (cases "source_line rest") auto
    from "1.prems" True p r have ok: "length init \<le> 500" and fs: "fs = (init @ sep) # gs" and e: "e = None"
      by (auto simp: source_line.simps[of line] split: if_splits)
    have "concat gs = rest"
      using "1.IH"[OF True p[symmetric] refl ok] r e by simp
    then show ?thesis using fs partition_str_join[OF p] by simp
  qed
qed

lemma source_line_bound:
  "f \<in> set (fst (source_line line)) \<Longrightarrow>
     length f \<le> 500 \<or> (length f = 501 \<and> last f = CHR '' '')"
proof (induction line rule: source_line.induct)
  case (1 line)
  show ?case
  proof (cases "500 < length line")
    case False
    then show ?thesis using "1.prems" by (simp add: source_line.simps)
  next
    case True
    obtain init sep rest where p: "partition_str CHR '' '' line = (init, sep, rest)"
      by (cases "partition_str CHR '' '' line") auto
    obtain gs e where r: "source_line rest = (gs, e)"
      by (cases "source_line rest") auto
    show ?thesis
    proof (cases "length init \<le> 500")
      case ok: True
      then have sl: "source_line line = ((init @ sep) # gs, e)"
        using True p r by (simp add: source_line.simps[of line])
      from "1.prems" sl have "f = init @ sep \<or> f \<in> set gs" by simp
      then show ?thesis
      proof
        assume f: "f = init @ sep"
        from partition_str_sep[OF p] show ?thesis
          using f ok by auto
      next
        assume "f \<in> set gs"
        then have "f \<in> set (fst (source_line rest))" using r by simp
        then show ?thesis
          using "1.IH"[OF True p[symmetric] refl ok] by simp
      qed
    next
      case False
      then have "source_line line = ([], Some AssertionError)"
        using True p by (simp add: source_line.simps[of line])
      then show ?thesis using "1.prems" by simp
    qed
  qed
qed

lemma split_on_absent: "c \<notin> set s \<Longrightarrow> split_on c s = [s]"
  by (induction s) auto

lemma split_on_present:
  "c \<in> set s \<Longrightarrow>
     split_on c s = takeWhile (\<lambda>x. x \<noteq> c) s # split_on c (tl (dropWhile (\<lambda>x. x \<noteq> c) s))"
  by (induction s) auto

lemma split_on_partition:
  assumes "partition_str c s = (init, sep, rest)"
  shows "init \<in> set (split_on c s)"
    and "sep \<noteq> [] \<Longrightarrow> set (split_on c rest) \<subseteq> set (split_on c s)"
    and "sep = [] \<Longrightarrow> rest = []"
  using assms by (auto simp: partition_str_def split_on_absent split_on_present split: if_splits)

lemma source_line_tokens:
  "\<forall>t \<in> set (split_on CHR '' '' line). length t \<le> 500 \<Longrightarrow> snd (source_line line) = None"
proof (induction line rule: source_line.induct)
  case (1 line)
  show ?case
  proof (cases "500 < length line")
    case False
    then show ?thesis by (simp add: source_line.simps)
  next
    case True
    obtain init sep rest where p: "partition_str CHR '' '' line = (init, sep, rest)"
      by (cases "partition_str CHR '' '' line") auto
    have ok: "length init \<le> 500"
      using split_on_partition(1)[OF p] "1.prems" by blast
    have "\<forall>t \<in> set (split_on CHR '' '' rest). length t \<le> 500"
    proof (cases "sep = []")
      case True
      then have "rest = []" using split_on_partition(3)[OF p] by simp
      then show ?thesis by simp
    next
      case False
      then show ?thesis using split_on_partition(2)[OF p] "1.prems" by blast
    qed
    then have "snd (source_line rest) = None"
      using "1.IH"[OF True p[symmetric] refl ok] by simp
    then show ?thesis
      using True p ok by (cases "source_line rest") (simp add: source_line.simps[of line])
  qed
qed

lemma source_concat:
  "source lines = (fs, None) \<Longrightarrow> concat fs = concat lines"
proof (induction lines arbitrary: fs)
  case Nil
  then show ?case by simp
next
  case (Cons l ls)
  obtain gs e where l: "source_line l = (gs, e)" by (cases "source_line l") auto
  obtain hs e' where ls: "source ls = (hs, e')" by (cases "source ls") auto
  from Cons.prems l ls have "e = None" "e' = None" "fs = gs @ hs"
    by (auto split: option.splits)
  then show ?case
    using Cons.IH[of hs] ls source_line_concat[of l gs] l by simp
qed

lemma source_tokens:
  "\<forall>l \<in> set lines. \<forall>t \<in> set (split_on CHR '' '' l). length t \<le> 500 \<Longrightarrow> snd (source lines) = None"
proof (induction lines)
  case Nil
  then show ?case by simp
next
  case (Cons l ls)
  have "snd (source_line l) = None" using Cons.prems source_line_tokens by simp
  moreover have "snd (source ls) = None" using Cons by simp
  ultimately show ?case
    by (cases "source_line l"; cases "source ls") auto
qed

lemma split_on_replicate:
  "a \<noteq> c \<Longrightarrow> split_on c (replicate n a @ c # r) = replicate n a # split_on c r"
  by (induction n) auto

lemma split_on_replicate_only:
  "a \<noteq> c \<Longrightarrow> split_on c (replicate n a) = [replicate n a]"
  by (rule split_on_absent) auto

lemma source_line_501:
  "source_line (replicate 500 (CHR ''a'') @ '' b'') =
     ([replicate 500 (CHR ''a'') @ '' '', ''b''], None)"
proof -
  have p: "partition_str CHR '' '' (replicate 500 (CHR ''a'') @ '' b'')
             = (replicate 500 (CHR ''a''), '' '', ''b'')"
    using partition_str_replicate[of "CHR ''a''" "CHR '' ''" 500 "''b''"] by simp
  show ?thesis
    by (simp add: source_line.simps[of "replicate 500 (CHR ''a'') @ '' b''"] p
          source_line.simps[of "''b''"])
qed

text \<open>
  Claim C2, as amended. The claim bounds every fragment that \<^verbatim>\<open>source\<close> forwards by
  500 characters, the trailing separator of a split-off fragment included. The code
  asserts \<^verbatim>\<open>len(init) <= 500\<close> for the part before the separator and then sends
  \<^verbatim>\<open>init\<close> with the separator. What holds: every fragment forwarded, on every
  input, has at most 500 characters, or has exactly 501 characters of which the last
  is the space it was split at.
\<close>

theorem source_fragment_bound:
  "f \<in> set (fst (source lines)) \<Longrightarrow>
     length f \<le> 500 \<or> (length f = 501 \<and> last f = CHR '' '')"
proof (induction lines)
  case Nil
  then show ?case by simp
next
  case (Cons l ls)
  obtain gs e where l: "source_line l = (gs, e)" by (cases "source_line l") auto
  obtain hs e' where ls: "source ls = (hs, e')" by (cases "source ls") auto
  from Cons.prems l ls have "f \<in> set gs \<or> f \<in> set hs"
    by (auto split: option.splits)
  then show ?case
  proof
    assume "f \<in> set gs"
    then have "f \<in> set (fst (source_line l))" using l by simp
    then show ?thesis by (rule source_line_bound)
  next
    assume "f \<in> set hs"
    then show ?thesis using Cons.IH ls by simp
  qed
qed

theorem source_fragment_bound_witness:
  "replicate 500 (CHR ''a'') @ '' '' \<in> set (fst (source [replicate 500 (CHR ''a'') @ '' b'', ''c'']))
   \<and> (length (replicate 500 (CHR ''a'') @ '' '') \<le> 500
      \<or> (length (replicate 500 (CHR ''a'') @ '' '') = 501
          \<and> last (replicate 500 (CHR ''a'') @ '' '') = CHR '' ''))"
proof -
  have m: "replicate 500 (CHR ''a'') @ '' '' \<in> set (fst (source [replicate 500 (CHR ''a'') @ '' b'', ''c'']))"
    by (simp add: source_line_501 source_line.simps[of "''c''"])
  show ?thesis using m source_fragment_bound[OF m] by simp
qed

text \<open>
  Claim C2 as stated fails: the line of 500 letters, a space and one more letter is
  longer than 500, is split at the space, and the fragment forwarded first is the 500
  letters with the space, 501 characters.
\<close>

theorem source_fragment_bound_counterexample:
  "source [replicate 500 (CHR ''a'') @ '' b''] = ([replicate 500 (CHR ''a'') @ '' '', ''b''], None)
   \<and> \<not> length (replicate 500 (CHR ''a'') @ '' '') \<le> 500"
  by (simp add: source_line_501)

lemma source_append:
  "source pre = (fs, None) \<Longrightarrow>
     source (pre @ ls) = (case source ls of (gs, e) \<Rightarrow> (fs @ gs, e))"
proof (induction pre arbitrary: fs)
  case Nil
  then show ?case by (cases "source ls") simp
next
  case (Cons l pre)
  obtain gs e where l: "source_line l = (gs, e)" by (cases "source_line l") auto
  obtain hs e' where p: "source pre = (hs, e')" by (cases "source pre") auto
  from Cons.prems l p have e: "e = None" "e' = None" and fs: "fs = gs @ hs"
    by (auto split: option.splits)
  have "source (pre @ ls) = (case source ls of (ks, e) \<Rightarrow> (hs @ ks, e))"
    using Cons.IH[of hs] p e by simp
  then show ?case using l e fs by (cases "source ls") simp
qed

text \<open>
  Claim C6, as amended. The claim lets \<^verbatim>\<open>source\<close> either split an unsplittable
  token by force or raise \<^verbatim>\<open>InputTooLongError\<close>. The code does neither. Wherever in
  the input a line longer than 500 characters with no space stands, after lines that
  were forwarded without an exception: \<^verbatim>\<open>partition\<close> returns the whole line as
  \<^verbatim>\<open>init\<close>, the statement \<^verbatim>\<open>assert(len(init) <= 500)\<close> fails, and
  \<^verbatim>\<open>AssertionError\<close> is raised. What was forwarded is the fragments of the lines
  before it and nothing of this line; the lines after it are not read. No fragment
  over the bound is forwarded silently.
\<close>

theorem source_unsplittable_raises:
  assumes "source pre = (fs, None)"
    and "CHR '' '' \<notin> set line" and "500 < length line"
  shows "source (pre @ line # lines) = (fs, Some AssertionError)"
proof -
  have "partition_str CHR '' '' line = (line, [], [])"
    using assms(2) by (rule partition_str_absent)
  then have "source_line line = ([], Some AssertionError)"
    using assms(3) by (simp add: source_line.simps[of line])
  then have "source (line # lines) = ([], Some AssertionError)" by simp
  then show ?thesis using source_append[OF assms(1), of "line # lines"] by simp
qed

theorem source_unsplittable_raises_witness:
  "source ([''ab cd'', ''ef''] @ replicate 501 (CHR ''x'') # [''next line''])
     = ([''ab cd'', ''ef''], Some AssertionError)"
proof -
  have p: "source [''ab cd'', ''ef''] = ([''ab cd'', ''ef''], None)"
    by (simp add: source_line.simps[of "''ab cd''"] source_line.simps[of "''ef''"])
  have a: "CHR '' '' \<notin> set (replicate 501 (CHR ''x''))" by simp
  have b: "500 < length (replicate 501 (CHR ''x''))" by simp
  show ?thesis by (rule source_unsplittable_raises[OF p a b])
qed

text \<open>
  Claim C6 as stated fails on its own example: one line of 1200 characters with no
  space. Nothing is forwarded (so the token is not split into three fragments), and
  the exception is the \<^verbatim>\<open>AssertionError\<close> of the \<^verbatim>\<open>assert\<close> statement; the code
  has no \<^verbatim>\<open>InputTooLongError\<close>.
\<close>

theorem source_unsplittable_counterexample:
  "fst (source [replicate 1200 (CHR ''a'')]) = []
   \<and> snd (source [replicate 1200 (CHR ''a'')]) = Some AssertionError"
proof -
  have "partition_str CHR '' '' (replicate 1200 (CHR ''a'')) = (replicate 1200 (CHR ''a''), [], [])"
    by (rule partition_str_absent) simp
  then have "source_line (replicate 1200 (CHR ''a'')) = ([], Some AssertionError)"
    by (simp add: source_line.simps[of "replicate 1200 (CHR ''a'')"])
  then show ?thesis by simp
qed

lemma split_ws_replicate:
  "\<not> is_space a \<Longrightarrow>
     split_ws (replicate n a @ r) = (replicate n a @ hd (split_ws r)) # tl (split_ws r)"
proof (induction n)
  case 0
  show ?case by (cases r) simp_all
next
  case (Suc n)
  then show ?case by simp
qed

text \<open>
  Claim C8, as amended. The claim speaks of lines that need no split other than at
  whitespace. The only boundary \<^verbatim>\<open>source\<close> splits at is the space character of
  \<^verbatim>\<open>line.partition(' ')\<close>: a tab or the newline that ends a line is no boundary
  for it. What holds: when every run of characters between spaces, in every line, has
  at most 500 characters, \<^verbatim>\<open>source\<close> raises nothing and the fragments it
  forwards, concatenated in order, are the input: the concatenation of its lines,
  character for character.
\<close>

theorem source_reconstructs_input:
  assumes "\<forall>l \<in> set lines. \<forall>t \<in> set (split_on CHR '' '' l). length t \<le> 500"
  shows "snd (source lines) = None \<and> concat (fst (source lines)) = concat lines"
proof -
  have n: "snd (source lines) = None" using assms by (rule source_tokens)
  then have "source lines = (fst (source lines), None)" by (cases "source lines") auto
  then have "concat (fst (source lines)) = concat lines" by (rule source_concat)
  with n show ?thesis by simp
qed

theorem source_reconstructs_input_witness:
  "snd (source [replicate 300 (CHR ''a'') @ CHR '' '' # replicate 300 (CHR ''b''), ''foo'']) = None
   \<and> concat (fst (source [replicate 300 (CHR ''a'') @ CHR '' '' # replicate 300 (CHR ''b''), ''foo'']))
       = concat [replicate 300 (CHR ''a'') @ CHR '' '' # replicate 300 (CHR ''b''), ''foo'']"
proof -
  have s1: "split_on CHR '' '' (replicate 300 (CHR ''a'') @ CHR '' '' # replicate 300 (CHR ''b''))
      = [replicate 300 (CHR ''a''), replicate 300 (CHR ''b'')]"
    by (simp add: split_on_replicate split_on_replicate_only)
  have s2: "split_on CHR '' '' ''foo'' = [''foo'']"
    by (rule split_on_absent) simp
  have h: "\<forall>l \<in> set [replicate 300 (CHR ''a'') @ CHR '' '' # replicate 300 (CHR ''b''), ''foo''].
             \<forall>t \<in> set (split_on CHR '' '' l). length t \<le> 500"
    by (simp add: s1 s2)
  show ?thesis by (rule source_reconstructs_input[OF h])
qed

text \<open>
  Claim C8 as stated fails: a line of two words of 300 letters joined by a tab needs
  no split other than at whitespace (split at whitespace, its pieces have 300
  characters), yet it has no space, so \<^verbatim>\<open>source\<close> raises \<^verbatim>\<open>AssertionError\<close>
  and forwards nothing: the fragments do not reconstruct the input.
\<close>

theorem source_reconstructs_input_counterexample:
  "list_all (\<lambda>t. length t \<le> 500)
      (split_ws (replicate 300 (CHR ''a'') @ CHR 0x09 # replicate 300 (CHR ''b'')))
   \<and> source [replicate 300 (CHR ''a'') @ CHR 0x09 # replicate 300 (CHR ''b'')]
       = ([], Some AssertionError)
   \<and> concat (fst (source [replicate 300 (CHR ''a'') @ CHR 0x09 # replicate 300 (CHR ''b'')]))
       \<noteq> concat [replicate 300 (CHR ''a'') @ CHR 0x09 # replicate 300 (CHR ''b'')]"
proof -
  let ?L = "replicate 300 (CHR ''a'') @ CHR 0x09 # replicate 300 (CHR ''b'')"
  have b: "split_ws (replicate 300 (CHR ''b'')) = [replicate 300 (CHR ''b'')]"
    using split_ws_replicate[of "CHR ''b''" 300 "[]"] by (simp add: is_space_def)
  have "split_ws ?L = [replicate 300 (CHR ''a''), replicate 300 (CHR ''b'')]"
    using split_ws_replicate[of "CHR ''a''" 300 "CHR 0x09 # replicate 300 (CHR ''b'')"] b
    by (simp add: is_space_def)
  then have w: "list_all (\<lambda>t. length t \<le> 500) (split_ws ?L)" by simp
  have "partition_str CHR '' '' ?L = (?L, [], [])"
    by (rule partition_str_absent) simp
  then have "source_line ?L = ([], Some AssertionError)"
    by (simp add: source_line.simps[of ?L])
  then have r: "source [?L] = ([], Some AssertionError)" by simp
  have "concat (fst (source [?L])) \<noteq> concat [?L]"
    unfolding r by simp
  with w r show ?thesis by simp
qed

section \<open>Properties of \<^verbatim>\<open>spool\<close>\<close>

lemma reduce_accumulator_int:
  "reduce accumulator (iter_str s) (PyInt n) = PyInt (n + int (length s))"
  unfolding reduce_def iter_str_def
  by (induction s arbitrary: n) (simp_all add: accumulator_def)

lemma reduce_accumulator_str:
  "reduce accumulator (iter_str s) (PyStr t) = PyStr (t @ s)"
  unfolding reduce_def iter_str_def
  by (induction s arbitrary: t) (simp_all add: accumulator_def)

lemma spool_merge_eq:
  "spool_merge st s = \<lparr>sp_words = sp_words st + int (length s), sp_text = sp_text st @ s\<rparr>"
  by (simp add: spool_merge_def reduce_accumulator_int reduce_accumulator_str)

lemma spool_run_pos:
  assumes "0 < maxlen"
  shows "spool_run maxlen st sent =
     (if sp_words st < maxlen then Some (st, sent) else Some (spool_init, sent @ [sp_text st]))"
proof (cases "sp_words st < maxlen")
  case True
  then show ?thesis by (subst spool_run.simps) simp
next
  case False
  have "spool_run maxlen spool_init (sent @ [sp_text st]) = Some (spool_init, sent @ [sp_text st])"
    using assms by (subst spool_run.simps) (simp add: spool_init_def)
  then show ?thesis using False by (subst spool_run.simps) simp
qed

lemma spool_send_pos:
  assumes "0 < maxlen"
  shows "spool_send maxlen st frag =
     (if sp_words (spool_merge st frag) < maxlen then Some (spool_merge st frag, [])
      else Some (spool_init, [sp_text (spool_merge st frag)]))"
  using spool_run_pos[OF assms] by (simp add: spool_send_def)

lemma spool_feed_total:
  assumes "0 < maxlen"
  shows "sp_words st < maxlen \<Longrightarrow>
     \<exists>st' sent. spool_feed maxlen frags st = Some (st', sent) \<and> sp_words st' < maxlen"
proof (induction frags arbitrary: st)
  case Nil
  then show ?case by simp
next
  case (Cons f fs)
  show ?case
  proof (cases "sp_words (spool_merge st f) < maxlen")
    case True
    then have s: "spool_send maxlen st f = Some (spool_merge st f, [])"
      using spool_send_pos[OF assms] by simp
    from Cons.IH[OF True] obtain st' sent
      where "spool_feed maxlen fs (spool_merge st f) = Some (st', sent)" "sp_words st' < maxlen"
      by blast
    then show ?thesis using s by simp
  next
    case False
    then have s: "spool_send maxlen st f = Some (spool_init, [sp_text (spool_merge st f)])"
      using spool_send_pos[OF assms] by simp
    have "sp_words spool_init < maxlen" using assms by (simp add: spool_init_def)
    from Cons.IH[OF this] obtain st' sent
      where "spool_feed maxlen fs spool_init = Some (st', sent)" "sp_words st' < maxlen"
      by blast
    then show ?thesis using s by simp
  qed
qed

text \<open>
  With a threshold that is not positive \<^verbatim>\<open>spool\<close> never reaches its first
  \<^verbatim>\<open>yield\<close>: priming does not return.
\<close>

lemma spool_run_no_value:
  assumes "spool_run maxlen st sent = Some r"
  shows "\<not> (maxlen \<le> 0 \<and> st = spool_init)"
proof (rule spool_run.raw_induct[where P = "\<lambda>m s t r. \<not> (m \<le> 0 \<and> s = spool_init)", OF _ assms])
  fix f :: "int \<Rightarrow> spool_state \<Rightarrow> string list \<Rightarrow> (spool_state \<times> string list) option"
    and m s t r
  assume IH: "\<And>m s t r. f m s t = Some r \<Longrightarrow> \<not> (m \<le> 0 \<and> s = spool_init)"
    and step: "(if sp_words s < m then Some (s, t) else f m spool_init (t @ [sp_text s])) = Some r"
  show "\<not> (m \<le> 0 \<and> s = spool_init)"
  proof
    assume a: "m \<le> 0 \<and> s = spool_init"
    then have "\<not> sp_words s < m" by (simp add: spool_init_def)
    then have "f m spool_init (t @ [sp_text s]) = Some r" using step by simp
    from IH[OF this] a show False by simp
  qed
qed

lemma spool_start_diverges: "maxlen \<le> 0 \<Longrightarrow> spool_start maxlen = None"
proof (rule ccontr)
  assume m: "maxlen \<le> 0" and "spool_start maxlen \<noteq> None"
  then obtain r where "spool_run maxlen spool_init [] = Some r"
    by (auto simp: spool_start_def)
  from spool_run_no_value[OF this] m show False by simp
qed

text \<open>
  Claim C3, as amended. The claim has the running count grow by the number of words
  of the fragment, found by splitting its text on whitespace. Nothing in the code
  splits a fragment: \<^verbatim>\<open>reduce(accumulator, stream, words)\<close> iterates over the
  characters of the fragment and adds \<^verbatim>\<open>len\<close> of each, which is 1. What holds: for
  every fragment received by \<^verbatim>\<open>spool\<close> the running count \<^verbatim>\<open>words\<close> grows by the
  number of characters of the fragment.
\<close>

theorem spool_merge_counts_characters:
  "sp_words (spool_merge st frag) = sp_words st + int (length frag)"
  by (simp add: spool_merge_eq)

text \<open>
  Claim C3 as stated fails: from the empty batch, the fragment \<^verbatim>\<open>hello world\<close>
  takes the count to 11, its number of characters; the count of the claim, the number
  of words, would be 2.
\<close>

theorem spool_merge_counterexample:
  "sp_words (spool_merge spool_init ''hello world'') = 11
   \<and> sp_words spool_init + int (spec_word_count ''hello world'') = 2"
  by (simp add: spool_merge_eq spool_init_def spec_word_count_def is_space_def)

text \<open>
  Claim C7. With a positive threshold \<^verbatim>\<open>maxlen\<close> (with \<^verbatim>\<open>maxlen <= 0\<close> the
  coroutine never reaches a \<^verbatim>\<open>yield\<close> and receives no fragment), priming flushes
  nothing, and in every state \<^verbatim>\<open>spool\<close> can be suspended in after any fragments the
  count is below the threshold. The next fragment is merged; a batch is flushed exactly
  when the count after this merge is at least the threshold, so at the flush the count
  is at least \<^verbatim>\<open>maxlen\<close> and before the last merge it was below; the text flushed is
  the merged text, and afterwards count and text are 0 and empty. The flush at
  \<^verbatim>\<open>close()\<close> is not a \<^verbatim>\<open>send\<close> and is not bounded.
\<close>

theorem spool_flush_threshold:
  assumes "0 < maxlen"
  shows "spool_start maxlen = Some (spool_init, [])
    \<and> (\<exists>st sent. spool_feed maxlen frags spool_init = Some (st, sent)
          \<and> sp_words st < maxlen
          \<and> spool_send maxlen st frag =
              (if sp_words (spool_merge st frag) < maxlen
               then Some (spool_merge st frag, [])
               else Some (\<lparr>sp_words = 0, sp_text = []\<rparr>, [sp_text (spool_merge st frag)])))"
proof -
  have i: "sp_words spool_init < maxlen" using assms by (simp add: spool_init_def)
  have "spool_start maxlen = Some (spool_init, [])"
    using i spool_run_pos[OF assms] by (simp add: spool_start_def)
  moreover from spool_feed_total[OF assms i] obtain st sent
    where "spool_feed maxlen frags spool_init = Some (st, sent)" "sp_words st < maxlen"
    by blast
  moreover have "spool_send maxlen st frag =
              (if sp_words (spool_merge st frag) < maxlen
               then Some (spool_merge st frag, [])
               else Some (\<lparr>sp_words = 0, sp_text = []\<rparr>, [sp_text (spool_merge st frag)]))" for st
    using spool_send_pos[OF assms] by (simp add: spool_init_def)
  ultimately show ?thesis by blast
qed

theorem spool_flush_threshold_witness:
  "spool_start 5 = Some (spool_init, [])
   \<and> spool_feed 5 [''ab ''] spool_init = Some (\<lparr>sp_words = 3, sp_text = ''ab ''\<rparr>, [])
   \<and> spool_send 5 \<lparr>sp_words = 3, sp_text = ''ab ''\<rparr> ''cde''
        = Some (\<lparr>sp_words = 0, sp_text = []\<rparr>, [''ab cde''])"
proof -
  have p: "(0::int) < 5" by simp
  from spool_flush_threshold[OF p, of "[''ab '']" "''cde''"]
  obtain st sent where
    s: "spool_start 5 = Some (spool_init, [])"
    and f: "spool_feed 5 [''ab ''] spool_init = Some (st, sent)"
    and n: "spool_send 5 st ''cde'' =
              (if sp_words (spool_merge st ''cde'') < 5
               then Some (spool_merge st ''cde'', [])
               else Some (\<lparr>sp_words = 0, sp_text = []\<rparr>, [sp_text (spool_merge st ''cde'')]))"
    by blast
  have e: "spool_feed 5 [''ab ''] spool_init = Some (\<lparr>sp_words = 3, sp_text = ''ab ''\<rparr>, [])"
    by (simp add: spool_send_pos spool_merge_eq spool_init_def)
  from f e have st: "st = \<lparr>sp_words = 3, sp_text = ''ab ''\<rparr>" by simp
  show ?thesis using s e n unfolding st by (simp add: spool_merge_eq)
qed

section \<open>Properties of \<^verbatim>\<open>write_stream\<close>\<close>

lemma print_sentences_all:
  "\<forall>s \<in> set segs. s fld \<noteq> None \<Longrightarrow>
     print_sentences fld segs out = (out @ concat (map (\<lambda>s. the (s fld)) segs), None)"
  by (induction segs arbitrary: out) auto

lemma print_sentences_prefix:
  "\<exists>t. fst (print_sentences fld segs out) = out @ t"
proof (induction segs arbitrary: out)
  case Nil
  then show ?case by simp
next
  case (Cons s segs)
  show ?case
  proof (cases "s fld")
    case None
    then show ?thesis by simp
  next
    case (Some t)
    from Cons.IH[of "out @ t"] obtain u
      where "fst (print_sentences fld segs (out @ t)) = (out @ t) @ u" by blast
    then show ?thesis using Some by simp
  qed
qed

text \<open>
  The assertion of \<^verbatim>\<open>write_stream\<close> reads the first segment only: a later segment
  without the field raises \<^verbatim>\<open>KeyError\<close> after the earlier segments were printed.
\<close>

lemma write_stream_later_segment:
  "write_stream [''sentences'' \<mapsto> [[''trans'' \<mapsto> ''a''], Map.empty]] ''trans'' ''x''
     = (''xa'', Some KeyError)"
  by (simp add: write_stream_def)

text \<open>
  Claim C9, as amended. The claim names the failure \<^verbatim>\<open>ConfigurationError\<close>. The
  code has no such exception: the check is \<^verbatim>\<open>assert(output in sentences[0])\<close>, made
  once per call, on the first segment, before the loop that prints. What holds: for
  every result whose first segment lacks the output field, \<^verbatim>\<open>write_stream\<close> raises
  \<^verbatim>\<open>AssertionError\<close> and the output is what it was before the call: nothing of this
  result is written and what was written before is unchanged.
\<close>

theorem write_stream_missing_field:
  assumes "script ''sentences'' = Some (s0 # rest)" and "s0 fld = None"
  shows "write_stream script fld out = (out, Some AssertionError)"
  using assms by (simp add: write_stream_def)

theorem write_stream_missing_field_witness:
  "write_stream [''sentences'' \<mapsto> [[''translit'' \<mapsto> ''privet''], [''trans'' \<mapsto> ''hello'']]] ''trans'' ''earlier output''
     = (''earlier output'', Some AssertionError)"
proof -
  let ?s0 = "[''translit'' \<mapsto> ''privet'']"
  let ?rest = "[[''trans'' \<mapsto> ''hello'']]"
  have a: "[''sentences'' \<mapsto> ?s0 # ?rest] ''sentences'' = Some (?s0 # ?rest)" by simp
  have b: "?s0 ''trans'' = None" by simp
  show ?thesis
    using write_stream_missing_field[of "[''sentences'' \<mapsto> ?s0 # ?rest]" ?s0 ?rest "''trans''" "''earlier output''", OF a b]
    by simp
qed

text \<open>
  Claim C9 as stated fails: on a result whose only segment has the field \<^verbatim>\<open>trans\<close>,
  with the output field \<^verbatim>\<open>translit\<close>, nothing is written and the exception raised
  is \<^verbatim>\<open>AssertionError\<close>, the failed \<^verbatim>\<open>assert\<close>, not a \<^verbatim>\<open>ConfigurationError\<close>.
\<close>

theorem write_stream_missing_field_counterexample:
  "fst (write_stream [''sentences'' \<mapsto> [[''trans'' \<mapsto> ''x'']]] ''translit'' []) = []
   \<and> snd (write_stream [''sentences'' \<mapsto> [[''trans'' \<mapsto> ''x'']]] ''translit'' []) = Some AssertionError"
  by (simp add: write_stream_def)

section \<open>Properties of \<^verbatim>\<open>set_task\<close>\<close>

lemma record_text_segments:
  assumes "script ''sentences'' = Some segs" and "\<forall>s \<in> set segs. s fld \<noteq> None"
  shows "record_text fld script = concat (map (\<lambda>s. the (s fld)) segs) @ [CHR 0x0A]"
proof -
  have meq: "map (\<lambda>s. case s fld of None \<Rightarrow> [] | Some t \<Rightarrow> t) segs = map (\<lambda>s. the (s fld)) segs"
    using assms(2) by (intro map_cong) auto
  show ?thesis by (simp add: record_text_def assms(1) meq)
qed

lemma write_stream_segments:
  assumes "script ''sentences'' = Some segs" and "segs \<noteq> []"
    and "\<forall>s \<in> set segs. s fld \<noteq> None"
  shows "write_stream script fld out
           = (out @ concat (map (\<lambda>s. the (s fld)) segs) @ [CHR 0x0A], None)"
proof -
  obtain s0 rest where segs: "segs = s0 # rest" using assms(2) by (cases segs) auto
  have "s0 fld \<noteq> None" using assms(3) segs by simp
  moreover have "print_sentences fld segs out = (out @ concat (map (\<lambda>s. the (s fld)) segs), None)"
    using assms(3) by (rule print_sentences_all)
  ultimately show ?thesis
    using assms(1) segs by (simp add: write_stream_def)
qed

lemma write_stream_printable:
  assumes "printable fld script"
  shows "write_stream script fld out = (out @ record_text fld script, None)"
proof -
  from assms obtain segs where s: "script ''sentences'' = Some segs" and n: "segs \<noteq> []"
    and a: "\<forall>s \<in> set segs. s fld \<noteq> None"
    by (cases "script ''sentences''") (auto simp: printable_def list_all_iff)
  show ?thesis
    using write_stream_segments[of script segs fld out] record_text_segments[of script segs fld] s n a
    by simp
qed

lemma stream_result_translates:
  assumes "translates tr fld (snd f)"
  shows "stream_result tr fld f st =
           (st\<lparr>delivered := delivered st @ [fst f],
               stdout := stdout st @ translated_record tr fld (snd f)\<rparr>, None)"
proof -
  from assms obtain script where t: "tr (snd f) = Inr script" and p: "printable fld script"
    by (auto simp: translates_def split: sum.splits)
  show ?thesis
    using t write_stream_printable[OF p, of "stdout st"]
    by (simp add: stream_result_def translated_record_def)
qed

lemma drain_empty: "queue st = [] \<Longrightarrow> drain tr od fld st = (st, None)"
  by (simp add: drain.simps)

lemma drain_waiting:
  "queue st \<noteq> [] \<Longrightarrow> \<not> od (polls st) (fst (hd (queue st))) \<Longrightarrow>
     drain tr od fld st = (st\<lparr>polls := Suc (polls st)\<rparr>, None)"
  by (simp add: drain.simps)

lemma drain_pop:
  "queue st \<noteq> [] \<Longrightarrow> od (polls st) (fst (hd (queue st))) \<Longrightarrow>
     drain tr od fld st =
       (case stream_result tr fld (last (queue st))
               (st\<lparr>queue := butlast (queue st), polls := Suc (polls st)\<rparr>) of
          (st', Some e) \<Rightarrow> (st', Some e)
        | (st', None) \<Rightarrow> drain tr od fld st')"
  by (subst drain.simps) simp

lemma sched_inv_delivered:
  assumes "sched_inv st" and "i \<in> set (delivered st)"
  shows "i < length (submitted st)"
proof -
  have "set_mset (mset (map fst (queue st)) + mset (delivered st))
          = set_mset (mset [0..<length (submitted st)])"
    using assms(1) by (simp add: sched_inv_def)
  then have "set (map fst (queue st)) \<union> set (delivered st) = {0..<length (submitted st)}"
    by simp
  then show ?thesis using assms(2) by auto
qed

lemma drain_translates:
  "\<forall>f \<in> set (queue st). translates tr fld (snd f) \<Longrightarrow> sched_inv st \<Longrightarrow> sched_out tr fld st \<Longrightarrow>
     \<exists>st'. drain tr od fld st = (st', None) \<and> sched_inv st' \<and> submitted st' = submitted st
        \<and> set (queue st') \<subseteq> set (queue st) \<and> sched_out tr fld st'"
proof (induction tr od fld st rule: drain.induct)
  case (1 tr od fld st)
  show ?case
  proof (cases "queue st = []")
    case True
    then show ?thesis using "1.prems" by (simp add: drain_empty)
  next
    case ne: False
    show ?thesis
    proof (cases "od (polls st) (fst (hd (queue st)))")
      case False
      then show ?thesis
        using ne "1.prems" by (simp add: drain_waiting sched_inv_def sched_out_def)
    next
      case True
      let ?f = "last (queue st)"
      let ?st1 = "st\<lparr>queue := butlast (queue st), polls := Suc (polls st)\<rparr>"
      let ?st2 = "?st1\<lparr>delivered := delivered ?st1 @ [fst ?f],
                        stdout := stdout ?st1 @ translated_record tr fld (snd ?f)\<rparr>"
      have fq: "?f \<in> set (queue st)" using ne by simp
      have "translates tr fld (snd ?f)" using fq "1.prems"(1) by blast
      then have sr: "stream_result tr fld ?f ?st1 = (?st2, None)"
        by (rule stream_result_translates)
      have q: "queue st = butlast (queue st) @ [?f]" using ne by simp
      have "mset (map fst (queue st)) = mset (map fst (butlast (queue st))) + {#fst ?f#}"
        by (subst q) simp
      then have inv2: "sched_inv ?st2" using "1.prems"(2) by (simp add: sched_inv_def)
      have ok2: "\<forall>f \<in> set (queue ?st2). translates tr fld (snd f)"
        using "1.prems"(1) by (auto dest: in_set_butlastD)
      have "submitted st ! fst ?f = snd ?f"
        using fq "1.prems"(3) by (auto simp: sched_out_def list_all_iff)
      moreover have "list_all (\<lambda>f. fst f < length (submitted st) \<and> submitted st ! fst f = snd f)
                       (butlast (queue st))"
        using "1.prems"(3) by (auto simp: sched_out_def list_all_iff dest: in_set_butlastD)
      ultimately have out2: "sched_out tr fld ?st2"
        using "1.prems"(3) by (simp add: sched_out_def)
      from "1.IH"[OF ne True sr[symmetric] refl ok2 inv2 out2] obtain st' where
        d: "drain tr od fld ?st2 = (st', None)" "sched_inv st'" "submitted st' = submitted ?st2"
        "set (queue st') \<subseteq> set (queue ?st2)" "sched_out tr fld st'"
        by blast
      have "drain tr od fld st = (st', None)"
        using drain_pop[where st=st and od=od and tr=tr and fld=fld] ne True sr d(1) by simp
      moreover have "set (queue st') \<subseteq> set (queue st)"
        using d(4) by (auto dest: in_set_butlastD)
      ultimately show ?thesis using d(2,3,5) by simp
    qed
  qed
qed

lemma set_task_send_translates:
  assumes "translates tr fld task" and "\<forall>f \<in> set (queue st). translates tr fld (snd f)"
    and "sched_inv st" and "sched_out tr fld st"
  shows "\<exists>st'. set_task_send tr od fld task st = (st', None) \<and> sched_inv st'
           \<and> submitted st' = submitted st @ [task]
           \<and> (\<forall>f \<in> set (queue st'). translates tr fld (snd f))
           \<and> sched_out tr fld st'"
proof -
  let ?st1 = "st\<lparr>queue := queue st @ [(length (submitted st), task)],
                  submitted := submitted st @ [task]\<rparr>"
  have ok: "\<forall>f \<in> set (queue ?st1). translates tr fld (snd f)"
    using assms(1,2) by auto
  have inv: "sched_inv ?st1" using assms(3) by (simp add: sched_inv_def)
  have meq: "map (\<lambda>i. translated_record tr fld ((submitted st @ [task]) ! i)) (delivered st)
          = map (\<lambda>i. translated_record tr fld (submitted st ! i)) (delivered st)"
    using sched_inv_delivered[OF assms(3)] by (intro map_cong) (auto simp: nth_append)
  have lq: "list_all (\<lambda>f. fst f < length (submitted st @ [task])
                        \<and> (submitted st @ [task]) ! fst f = snd f) (queue st)"
    using assms(4) by (auto simp: sched_out_def list_all_iff nth_append)
  have so: "stdout st = concat (map (\<lambda>i. translated_record tr fld (submitted st ! i)) (delivered st))"
    using assms(4) by (simp add: sched_out_def)
  have out: "sched_out tr fld ?st1"
    using lq by (simp add: sched_out_def meq so)
  from drain_translates[OF ok inv out, of od] obtain st' where
    d: "drain tr od fld ?st1 = (st', None)" "sched_inv st'" "submitted st' = submitted ?st1"
      "set (queue st') \<subseteq> set (queue ?st1)" "sched_out tr fld st'"
    by blast
  have "\<forall>f \<in> set (queue st'). translates tr fld (snd f)" using d(4) ok by blast
  then show ?thesis using d(1,2,3,5) by (simp add: set_task_send_def)
qed

lemma set_task_feed_translates:
  "\<forall>t \<in> set tasks. translates tr fld t \<Longrightarrow>
   \<forall>f \<in> set (queue st). translates tr fld (snd f) \<Longrightarrow> sched_inv st \<Longrightarrow> sched_out tr fld st \<Longrightarrow>
     \<exists>st'. set_task_feed tr od fld tasks st = (st', None) \<and> sched_inv st'
        \<and> submitted st' = submitted st @ tasks
        \<and> (\<forall>f \<in> set (queue st'). translates tr fld (snd f))
        \<and> sched_out tr fld st'"
proof (induction tasks arbitrary: st)
  case Nil
  then show ?case by simp
next
  case (Cons t ts)
  have "translates tr fld t" using Cons.prems(1) by simp
  from set_task_send_translates[OF this Cons.prems(2,3,4), of od] obtain st1 where
    s: "set_task_send tr od fld t st = (st1, None)" "sched_inv st1"
      "submitted st1 = submitted st @ [t]"
      "\<forall>f \<in> set (queue st1). translates tr fld (snd f)"
      "sched_out tr fld st1"
    by blast
  have "\<forall>t \<in> set ts. translates tr fld t" using Cons.prems(1) by simp
  from Cons.IH[OF this s(4) s(2) s(5)] obtain st' where
    "set_task_feed tr od fld ts st1 = (st', None)" "sched_inv st'"
    "submitted st' = submitted st1 @ ts"
    "\<forall>f \<in> set (queue st'). translates tr fld (snd f)"
    "sched_out tr fld st'"
    by blast
  then show ?case using s(1,3) by simp
qed

lemma stream_all_translates:
  "\<forall>f \<in> set fs. translates tr fld (snd f) \<Longrightarrow>
     \<exists>st'. stream_all tr fld fs st = (st', None) \<and> delivered st' = delivered st @ map fst fs
        \<and> queue st' = queue st \<and> submitted st' = submitted st
        \<and> stdout st' = stdout st @ concat (map (\<lambda>f. translated_record tr fld (snd f)) fs)"
proof (induction fs arbitrary: st)
  case Nil
  then show ?case by simp
next
  case (Cons f fs)
  let ?st1 = "st\<lparr>delivered := delivered st @ [fst f],
                  stdout := stdout st @ translated_record tr fld (snd f)\<rparr>"
  have "translates tr fld (snd f)" using Cons.prems by simp
  then have sr: "stream_result tr fld f st = (?st1, None)"
    by (rule stream_result_translates)
  have "\<forall>f \<in> set fs. translates tr fld (snd f)" using Cons.prems by simp
  from Cons.IH[OF this, of ?st1]
  show ?case using sr by simp
qed

lemma sched_inv_init: "sched_inv set_task_init"
  by (simp add: sched_inv_def set_task_init_def)

lemma sched_out_init: "sched_out tr fld set_task_init"
  by (simp add: sched_out_def set_task_init_def)

text \<open>
  Claim C5, as amended. The claim has \<^verbatim>\<open>write_stream\<close> write nothing after the
  segments of a result and one terminator at the final shutdown. The code ends every
  call with \<^verbatim>\<open>printer('\n')\<close>, and \<^verbatim>\<open>set_task\<close> writes nothing of its own when it
  is closed. What holds: for every result that has a list of segments, not empty, all of
  which have the selected field, \<^verbatim>\<open>write_stream\<close> appends to the output the field of
  each segment, in order and with no separator between segments, and then one newline,
  after each result; and closing \<^verbatim>\<open>set_task\<close>, when every task still queued
  translates, appends to the output the records of the queued results, each with its
  newline, and nothing else: with an empty queue the final shutdown writes nothing.
\<close>

theorem write_stream_output:
  assumes "script ''sentences'' = Some segs" and "segs \<noteq> []"
    and "\<forall>s \<in> set segs. s fld \<noteq> None"
    and "\<forall>f \<in> set (queue st). translates translator fld (snd f)"
  shows "write_stream script fld out
           = (out @ concat (map (\<lambda>s. the (s fld)) segs) @ [CHR 0x0A], None)
    \<and> (\<exists>st'. set_task_close translator fld st = (st', None)
           \<and> stdout st' = stdout st
                @ concat (map (\<lambda>f. translated_record translator fld (snd f)) (queue st)))"
proof -
  obtain s0 rest where segs: "segs = s0 # rest" using assms(2) by (cases segs) auto
  have "s0 fld \<noteq> None" using assms(3) segs by simp
  moreover have "print_sentences fld segs out = (out @ concat (map (\<lambda>s. the (s fld)) segs), None)"
    using assms(3) by (rule print_sentences_all)
  ultimately have w: "write_stream script fld out
           = (out @ concat (map (\<lambda>s. the (s fld)) segs) @ [CHR 0x0A], None)"
    using assms(1) segs by (simp add: write_stream_def)
  from stream_all_translates[OF assms(4), of st] obtain st' where
    "stream_all translator fld (queue st) st = (st', None)"
    "stdout st' = stdout st @ concat (map (\<lambda>f. translated_record translator fld (snd f)) (queue st))"
    by blast
  then have "\<exists>st'. set_task_close translator fld st = (st', None)
           \<and> stdout st' = stdout st
                @ concat (map (\<lambda>f. translated_record translator fld (snd f)) (queue st))"
    by (simp add: set_task_close_def)
  with w show ?thesis by simp
qed

theorem write_stream_output_witness:
  "write_stream [''sentences'' \<mapsto> [[''trans'' \<mapsto> ''Guten '', ''translit'' \<mapsto> ''g''], [''trans'' \<mapsto> ''Tag'']]]
       ''trans'' ''prev''
     = (''prevGuten Tag'' @ [CHR 0x0A], None)
   \<and> (\<exists>st'. set_task_close echo_translator ''trans''
              \<lparr>queue = [], polls = 2, submitted = [''a''], delivered = [0],
               stdout = [CHR ''a'', CHR 0x0A]\<rparr> = (st', None)
         \<and> stdout st' = [CHR ''a'', CHR 0x0A])"
proof -
  let ?segs = "[[''trans'' \<mapsto> ''Guten '', ''translit'' \<mapsto> ''g''], [''trans'' \<mapsto> ''Tag'']]"
  let ?st = "\<lparr>queue = [], polls = 2, submitted = [''a''], delivered = [0],
               stdout = [CHR ''a'', CHR 0x0A]\<rparr>"
  have a: "[''sentences'' \<mapsto> ?segs] ''sentences'' = Some ?segs" by simp
  have b: "?segs \<noteq> []" by simp
  have c: "\<forall>s \<in> set ?segs. s ''trans'' \<noteq> None" by simp
  have d: "\<forall>f \<in> set (queue ?st). translates echo_translator ''trans'' (snd f)" by simp
  show ?thesis
    using write_stream_output[of "[''sentences'' \<mapsto> ?segs]" ?segs "''trans''" ?st
        echo_translator "''prev''", OF a b c d]
    by simp
qed

text \<open>
  Claim C5 as stated fails: two results with the texts \<^verbatim>\<open>a\<close> and \<^verbatim>\<open>b\<close>, written
  one after the other to an empty output, leave \<^verbatim>\<open>a\<close>, newline, \<^verbatim>\<open>b\<close>, newline:
  a terminator follows the first result, which is not the last.
\<close>

theorem write_stream_newline_counterexample:
  "write_stream [''sentences'' \<mapsto> [[''trans'' \<mapsto> ''b'']]] ''trans''
     (fst (write_stream [''sentences'' \<mapsto> [[''trans'' \<mapsto> ''a'']]] ''trans'' []))
   = ([CHR ''a'', CHR 0x0A, CHR ''b'', CHR 0x0A], None)"
  by (simp add: write_stream_def)

text \<open>
  Claim C4. When the translator returns, for every task sent, a script that
  \<^verbatim>\<open>write_stream\<close> prints (a translator that raises, or a script without the output
  field, ends the coroutine with that exception), a session of \<^verbatim>\<open>set_task\<close> that is
  sent N tasks and then closed ends without an exception whatever the completion of
  the futures was: N tasks were submitted, N results were passed to \<^verbatim>\<open>stream\<close>,
  they are the results of the submissions 0 to N - 1, each exactly once, what the Sink
  has written is the record of each of these results (the fields of its segments and a
  newline), one after the other in the order of delivery, and no future still in the
  list \<^verbatim>\<open>queue\<close> (which the final drain reads and does not empty) is undelivered.
\<close>

theorem set_task_drain_complete:
  assumes "\<forall>t \<in> set tasks. translates translator (output_field translit) t"
  shows "\<exists>st. set_task_session translator is_done translit tasks = (st, None)
           \<and> submitted st = tasks
           \<and> length (delivered st) = length tasks
           \<and> mset (delivered st) = mset [0..<length tasks]
           \<and> distinct (delivered st)
           \<and> set (map fst (queue st)) \<subseteq> set (delivered st)
           \<and> stdout st = concat (map (\<lambda>i. translated_record translator (output_field translit) (tasks ! i))
                                   (delivered st))"
proof -
  let ?fld = "output_field translit"
  let ?rec = "translated_record translator ?fld"
  have q0: "\<forall>f \<in> set (queue set_task_init). translates translator ?fld (snd f)"
    by (simp add: set_task_init_def)
  from set_task_feed_translates[OF assms q0 sched_inv_init sched_out_init, of is_done] obtain st1 where
    f: "set_task_feed translator is_done ?fld tasks set_task_init = (st1, None)"
    and inv: "sched_inv st1"
    and sub: "submitted st1 = submitted set_task_init @ tasks"
    and ok: "\<forall>f \<in> set (queue st1). translates translator ?fld (snd f)"
    and out: "sched_out translator ?fld st1"
    by blast
  from stream_all_translates[OF ok, of st1] obtain st where
    c: "stream_all translator ?fld (queue st1) st1 = (st, None)"
    and del: "delivered st = delivered st1 @ map fst (queue st1)"
    and qu: "queue st = queue st1" and sub': "submitted st = submitted st1"
    and so: "stdout st = stdout st1 @ concat (map (\<lambda>f. ?rec (snd f)) (queue st1))"
    by blast
  have ses: "set_task_session translator is_done translit tasks = (st, None)"
    using f c by (simp add: set_task_session_def set_task_close_def)
  have t1: "submitted st1 = tasks" using sub by (simp add: set_task_init_def)
  have tasks: "submitted st = tasks" using t1 sub' by simp
  have m: "mset (delivered st) = mset [0..<length tasks]"
    using inv del sub by (simp add: sched_inv_def set_task_init_def add.commute)
  have len: "length (delivered st) = length tasks"
    using m by (metis length_upt mset_eq_length minus_nat.diff_0)
  have dis: "distinct (delivered st)"
    using m by (metis distinct_upt mset_eq_imp_distinct_iff)
  have pend: "set (map fst (queue st)) \<subseteq> set (delivered st)"
    using del qu by auto
  have meq: "map (\<lambda>f. ?rec (snd f)) (queue st1) = map (\<lambda>f. ?rec (tasks ! fst f)) (queue st1)"
    using out t1 by (intro map_cong) (auto simp: sched_out_def list_all_iff)
  have s1: "stdout st1 = concat (map (\<lambda>i. ?rec (tasks ! i)) (delivered st1))"
    using out t1 by (simp add: sched_out_def)
  have "stdout st = concat (map (\<lambda>i. ?rec (tasks ! i)) (delivered st1))
                      @ concat (map (\<lambda>f. ?rec (tasks ! fst f)) (queue st1))"
    by (simp add: so s1 meq)
  also have "\<dots> = concat (map (\<lambda>i. ?rec (tasks ! i)) (delivered st))"
    by (simp add: del comp_def)
  finally have sd: "stdout st = concat (map (\<lambda>i. ?rec (tasks ! i)) (delivered st))" .
  from ses tasks len m dis pend sd show ?thesis by blast
qed

theorem set_task_drain_complete_witness:
  "\<exists>st. set_task_session echo_translator (\<lambda>t j. 1 \<le> t \<and> j = 0) True [''a'', ''b'', ''c''] = (st, None)
           \<and> submitted st = [''a'', ''b'', ''c'']
           \<and> length (delivered st) = length [''a'', ''b'', ''c'']
           \<and> mset (delivered st) = mset [0..<length [''a'', ''b'', ''c'']]
           \<and> distinct (delivered st)
           \<and> set (map fst (queue st)) \<subseteq> set (delivered st)
           \<and> stdout st = concat (map (\<lambda>i. translated_record echo_translator (output_field True)
                                             ([''a'', ''b'', ''c''] ! i))
                                   (delivered st))"
proof -
  have h: "\<forall>t \<in> set [''a'', ''b'', ''c'']. translates echo_translator (output_field True) t"
    by (simp add: translates_def echo_translator_def printable_def output_field_def)
  show ?thesis by (rule set_task_drain_complete[OF h])
qed

text \<open>
  The same session, evaluated: the second result is written first, then the first,
  then, at the close, the third; each record ends with its newline.
\<close>

lemma set_task_session_three:
  "set_task_session echo_translator (\<lambda>t j. 1 \<le> t \<and> j = 0) True [''a'', ''b'', ''c''] =
     (\<lparr>queue = [(2, ''c'')], polls = 4, submitted = [''a'', ''b'', ''c''], delivered = [1, 0, 2],
       stdout = [CHR ''b'', CHR 0x0A, CHR ''a'', CHR 0x0A, CHR ''c'', CHR 0x0A]\<rparr>, None)"
  by (simp add: set_task_session_def set_task_send_def set_task_close_def drain.simps
      stream_result_def write_stream_def echo_translator_def set_task_init_def output_field_def)

text \<open>
  Claim C1 fails on the code. The loop of \<^verbatim>\<open>set_task\<close> tests the first future of the
  queue with \<^verbatim>\<open>done(first(queue))\<close> and then removes the last one with
  \<^verbatim>\<open>queue.pop()\<close>. Two tasks \<^verbatim>\<open>a\<close> and \<^verbatim>\<open>b\<close> are sent to a translator
  that returns its input; the first future is not done at the first call of
  \<^verbatim>\<open>done()\<close>, after the first submission, and is done from the second call on, after
  the second submission. Then the result of the second submission (number 1) is
  delivered before the result of the first (number 0), and the output is \<^verbatim>\<open>b\<close>,
  newline, \<^verbatim>\<open>a\<close>, newline.
\<close>

theorem set_task_out_of_order:
  "set_task_session echo_translator (\<lambda>t j. 1 \<le> t) False [''a'', ''b''] =
     (\<lparr>queue = [], polls = 3, submitted = [''a'', ''b''], delivered = [1, 0],
       stdout = [CHR ''b'', CHR 0x0A, CHR ''a'', CHR 0x0A]\<rparr>, None)"
  by (simp add: set_task_session_def set_task_send_def set_task_close_def drain.simps
      stream_result_def write_stream_def echo_translator_def set_task_init_def output_field_def)

text \<open>
  When no future is done before the coroutine is closed, the final drain delivers in
  the order of submission.
\<close>

lemma set_task_in_order_at_close:
  "set_task_session echo_translator (\<lambda>t j. False) False [''a'', ''b''] =
     (\<lparr>queue = [(0, ''a''), (1, ''b'')], polls = 2, submitted = [''a'', ''b''], delivered = [0, 1],
       stdout = [CHR ''a'', CHR 0x0A, CHR ''b'', CHR 0x0A]\<rparr>, None)"
  by (simp add: set_task_session_def set_task_send_def set_task_close_def drain.simps
      stream_result_def write_stream_def echo_translator_def set_task_init_def output_field_def)

section \<open>Properties of the pipeline\<close>

lemma stream_result_submitted:
  "submitted (fst (stream_result tr fld f st)) = submitted st"
  by (simp add: stream_result_def split: sum.splits prod.splits)

lemma drain_submitted:
  "submitted (fst (drain tr od fld st)) = submitted st"
proof (induction tr od fld st rule: drain.induct)
  case (1 tr od fld st)
  show ?case
  proof (cases "queue st \<noteq> [] \<and> od (polls st) (fst (hd (queue st)))")
    case False
    then show ?thesis by (auto simp: drain.simps[of tr od fld st])
  next
    case True
    let ?st1 = "st\<lparr>queue := butlast (queue st), polls := Suc (polls st)\<rparr>"
    obtain st' e where sr: "stream_result tr fld (last (queue st)) ?st1 = (st', e)"
      by (cases "stream_result tr fld (last (queue st)) ?st1") auto
    have s1: "submitted st' = submitted st"
      using stream_result_submitted[of tr fld "last (queue st)" ?st1] sr by simp
    show ?thesis
    proof (cases e)
      case None
      have "submitted (fst (drain tr od fld st')) = submitted st'"
        using "1.IH"[of st' e] True sr None by simp
      then show ?thesis
        using True sr None s1 by (simp add: drain.simps[of tr od fld st])
    next
      case (Some x)
      then show ?thesis
        using True sr s1 by (simp add: drain.simps[of tr od fld st])
    qed
  qed
qed

lemma stream_all_submitted:
  "submitted (fst (stream_all tr fld fs st)) = submitted st"
proof (induction fs arbitrary: st)
  case Nil
  then show ?case by simp
next
  case (Cons f fs)
  obtain st' e where sr: "stream_result tr fld f st = (st', e)"
    by (cases "stream_result tr fld f st") auto
  have "submitted st' = submitted st"
    using stream_result_submitted[of tr fld f st] sr by simp
  then show ?case using sr Cons.IH[of st'] by (cases e) auto
qed

lemma set_task_send_submitted:
  "submitted (fst (set_task_send tr od fld task st)) = submitted st @ [task]"
  by (simp add: set_task_send_def drain_submitted)

lemma pipe_close_submitted:
  "submitted (fst (pipe_close tr od fld (sp, sch))) = submitted sch @ [sp_text sp]"
proof -
  obtain sch' e where s: "set_task_send tr od fld (sp_text sp) sch = (sch', e)"
    by (cases "set_task_send tr od fld (sp_text sp) sch") auto
  have a: "submitted sch' = submitted sch @ [sp_text sp]"
    using set_task_send_submitted[of tr od fld "sp_text sp" sch] s by simp
  show ?thesis
    using s a by (cases e) (auto simp: pipe_close_def spool_close_def set_task_close_def stream_all_submitted)
qed

lemma pipe_close_empty:
  assumes "tr [] = Inr script" and "printable fld script"
  shows "\<exists>st. pipe_close tr od fld (spool_init, set_task_init) = (st, None)
           \<and> submitted st = [[]] \<and> delivered st = [0]
           \<and> stdout st = record_text fld script"
proof -
  have w: "write_stream script fld [] = (record_text fld script, None)"
    using write_stream_printable[OF assms(2), of "[]"] by simp
  show ?thesis
    using assms(1) w
    by (cases "od 0 0")
       (simp_all add: pipe_close_def spool_close_def spool_init_def set_task_init_def
          set_task_send_def set_task_close_def drain.simps stream_result_def)
qed

text \<open>
  Claim C10. Closing the pipeline in any state submits exactly one more task, the
  text \<^verbatim>\<open>spool\<close> holds at that moment, whatever happens afterwards. On an input
  with no line at all, with a positive threshold and a translator that returns, for the
  empty text, a script whose segments (at least one) all have the output field, the
  whole run ends without an exception: the only task submitted is the empty text, its
  result is delivered once, and the output is one record: the output field of each
  segment of that result, in order, and one newline.
\<close>

theorem pipeline_close_submits_final_job:
  assumes "0 < maxlen" and "translator [] = Inr script"
    and "script ''sentences'' = Some segs" and "segs \<noteq> []"
    and "\<forall>s \<in> set segs. s (output_field translit) \<noteq> None"
  shows "submitted (fst (pipe_close translator is_done fld (sp, sch))) = submitted sch @ [sp_text sp]
    \<and> (\<exists>st. pipeline translator is_done translit maxlen [] = Some (st, None)
           \<and> submitted st = [[]] \<and> delivered st = [0]
           \<and> stdout st = concat (map (\<lambda>s. the (s (output_field translit))) segs) @ [CHR 0x0A])"
proof -
  have pr: "printable (output_field translit) script"
    using assms(3,4,5) by (simp add: printable_def list_all_iff)
  have rt: "record_text (output_field translit) script
              = concat (map (\<lambda>s. the (s (output_field translit))) segs) @ [CHR 0x0A]"
    using assms(3,5) by (rule record_text_segments)
  have "spool_start maxlen = Some (spool_init, [])"
    using spool_run_pos[OF assms(1), of spool_init "[]"] assms(1)
    by (simp add: spool_start_def spool_init_def)
  then have p: "pipeline translator is_done translit maxlen []
      = Some (pipe_close translator is_done (output_field translit) (spool_init, set_task_init))"
    by (simp add: pipeline_def)
  from pipe_close_empty[where tr=translator and script=script and fld="output_field translit"
      and od=is_done, OF assms(2) pr] p rt
  have "\<exists>st. pipeline translator is_done translit maxlen [] = Some (st, None)
           \<and> submitted st = [[]] \<and> delivered st = [0]
           \<and> stdout st = concat (map (\<lambda>s. the (s (output_field translit))) segs) @ [CHR 0x0A]"
    by auto
  then show ?thesis using pipe_close_submitted by blast
qed

theorem pipeline_close_submits_final_job_witness:
  "submitted (fst (pipe_close echo_translator (\<lambda>t j. False) ''trans''
       (\<lparr>sp_words = 3, sp_text = ''abc''\<rparr>, set_task_init)))
     = submitted set_task_init @ [sp_text \<lparr>sp_words = 3, sp_text = ''abc''\<rparr>]
   \<and> (\<exists>st. pipeline echo_translator (\<lambda>t j. False) False 1200 [] = Some (st, None)
           \<and> submitted st = [[]] \<and> delivered st = [0]
           \<and> stdout st = concat (map (\<lambda>s. the (s (output_field False)))
                                    [[''trans'' \<mapsto> [], ''translit'' \<mapsto> []]]) @ [CHR 0x0A])"
proof -
  have a: "(0::int) < 1200" by simp
  have b: "echo_translator [] = Inr [''sentences'' \<mapsto> [[''trans'' \<mapsto> [], ''translit'' \<mapsto> []]]]"
    by (simp add: echo_translator_def)
  have c: "[''sentences'' \<mapsto> [[''trans'' \<mapsto> [], ''translit'' \<mapsto> []]]] ''sentences''
             = Some [[''trans'' \<mapsto> [], ''translit'' \<mapsto> []]]"
    by simp
  have d: "[[''trans'' \<mapsto> [], ''translit'' \<mapsto> ([]::string)]] \<noteq> []" by simp
  have e: "\<forall>s \<in> set [[''trans'' \<mapsto> [], ''translit'' \<mapsto> []]]. s (output_field False) \<noteq> None"
    by (simp add: output_field_def)
  show ?thesis
    by (rule pipeline_close_submits_final_job[where translator=echo_translator
          and script="[''sentences'' \<mapsto> [[''trans'' \<mapsto> [], ''translit'' \<mapsto> []]]]"
          and segs="[[''trans'' \<mapsto> [], ''translit'' \<mapsto> []]]"
          and translit=False and maxlen=1200, OF a b c d e])
qed

text \<open>The same run, evaluated: one empty task, one result, one newline on the output.\<close>

lemma pipeline_empty_input:
  "pipeline echo_translator (\<lambda>t j. True) False 1200 [] =
     Some (\<lparr>queue = [], polls = 1, submitted = [[]], delivered = [0], stdout = [CHR 0x0A]\<rparr>, None)"
  by (simp add: pipeline_def spool_start_def spool_run.simps spool_init_def pipe_close_def
     spool_close_def set_task_init_def set_task_send_def set_task_close_def drain.simps
     stream_result_def write_stream_def echo_translator_def output_field_def)

end
